theory Spec2Isabelle
  imports Main "HOL-Library.Sublist"
begin

section \<open>Obun: manifest extraction and directive assembly\<close>

text \<open>
  A shallow embedding of \<^verbatim>\<open>obun.py\<close>: the class \<^verbatim>\<open>Manifest\<close> (\<^verbatim>\<open>parse\<close>), the class
  \<^verbatim>\<open>CodeAssembler\<close> (\<^verbatim>\<open>load_manifest\<close>, \<^verbatim>\<open>strip_manifest\<close>, \<^verbatim>\<open>build\<close>) and the part of
  \<^verbatim>\<open>run_build\<close> that computes the emitted text.

  A Python \<^verbatim>\<open>str\<close> is a \<^typ>\<open>string\<close>; a \<^typ>\<open>char\<close> stands for a code point below 256, and the
  character classes of \<^verbatim>\<open>str.strip\<close>, \<^verbatim>\<open>str.split\<close> and \<^verbatim>\<open>str.splitlines\<close> are Python's,
  restricted to that range.
\<close>

subsection \<open>Python string primitives\<close>

definition CR :: char where
  "CR = CHR 0x0D"

definition LF :: char where
  "LF = CHR 0x0A"

text \<open>\<^verbatim>\<open>str.isspace\<close> on one character: the whitespace that \<^verbatim>\<open>strip()\<close> and \<^verbatim>\<open>split()\<close> remove.\<close>

definition is_space :: "char \<Rightarrow> bool" where
  "is_space c \<longleftrightarrow> c \<in> {CHR 0x09, CHR 0x0A, CHR 0x0B, CHR 0x0C, CHR 0x0D,
                       CHR 0x1C, CHR 0x1D, CHR 0x1E, CHR 0x1F, CHR 0x20, CHR 0x85, CHR 0xA0}"

text \<open>The line boundaries of \<^verbatim>\<open>str.splitlines\<close>.\<close>

definition is_linebreak :: "char \<Rightarrow> bool" where
  "is_linebreak c \<longleftrightarrow> c \<in> {CHR 0x0A, CHR 0x0B, CHR 0x0C, CHR 0x0D,
                           CHR 0x1C, CHR 0x1D, CHR 0x1E, CHR 0x85}"

definition not_linebreak :: "char \<Rightarrow> bool" where
  "not_linebreak c \<longleftrightarrow> \<not> is_linebreak c"

definition not_space :: "char \<Rightarrow> bool" where
  "not_space c \<longleftrightarrow> \<not> is_space c"

text \<open>\<^verbatim>\<open>s.strip()\<close>\<close>

definition py_strip :: "string \<Rightarrow> string" where
  "py_strip s = rev (dropWhile is_space (rev (dropWhile is_space s)))"

text \<open>\<^verbatim>\<open>s.startswith(p)\<close>\<close>

definition startswith :: "string \<Rightarrow> string \<Rightarrow> bool" where
  "startswith s p \<longleftrightarrow> take (length p) s = p"

text \<open>
  \<^verbatim>\<open>s.split(maxsplit=1)\<close>: leading whitespace is skipped, the first word ends at the next
  whitespace, and what follows the whitespace after it is the second element, as it is.
\<close>

definition py_split1 :: "string \<Rightarrow> string list" where
  "py_split1 s =
     (let s1 = dropWhile is_space s in
      if s1 = [] then []
      else let w = takeWhile not_space s1;
               r = dropWhile is_space (dropWhile not_space s1)
           in if r = [] then [w] else [w, r])"

text \<open>\<^verbatim>\<open>line.split(":", 1)\<close> for a line that contains a colon: the two sides of the first colon.\<close>

definition split_colon :: "string \<Rightarrow> string \<times> string" where
  "split_colon line =
     (takeWhile (\<lambda>c. c \<noteq> CHR '':'') line, tl (dropWhile (\<lambda>c. c \<noteq> CHR '':'') line))"

text \<open>
  The line terminator at the head of a text, and the text after it: \<^verbatim>\<open>\r\n\<close> is one
  terminator.
\<close>

definition eol :: "string \<Rightarrow> string \<times> string" where
  "eol r =
     (case r of
        [] \<Rightarrow> ([], [])
      | e # r' \<Rightarrow>
          (if e = CR then
             (case r' of
                [] \<Rightarrow> ([e], r')
              | n # r'' \<Rightarrow> if n = LF then ([e, n], r'') else ([e], r'))
           else ([e], r')))"

text \<open>\<^verbatim>\<open>s.splitlines(keepends)\<close>\<close>

function splitlines :: "bool \<Rightarrow> string \<Rightarrow> string list" where
  "splitlines keepends [] = []"
| "splitlines keepends (c # cs) =
     (let body = takeWhile not_linebreak (c # cs);
          te = eol (dropWhile not_linebreak (c # cs))
      in (if keepends then body @ fst te else body) # splitlines keepends (snd te))"
  by pat_completeness auto
termination
proof (relation "measure (\<lambda>(k, s). length s)")
  show "wf (measure (\<lambda>(k, s). length s))"
    by simp
next
  fix keepends :: bool and c :: char and cs :: string
    and body :: string and te :: "string \<times> string"
  assume te: "te = eol (dropWhile not_linebreak (c # cs))"
  have length_snd_eol: "length (snd (eol r)) \<le> length r" for r
    by (simp add: eol_def split: list.splits)
  show "((keepends, snd te), (keepends, c # cs)) \<in> measure (\<lambda>(k, s). length s)"
  proof (cases "not_linebreak c")
    case True
    have "length (snd te) \<le> length (dropWhile not_linebreak cs)"
      using te True length_snd_eol by simp
    also have "\<dots> \<le> length cs"
      by (rule length_dropWhile_le)
    finally show ?thesis by simp
  next
    case False
    then show ?thesis
      using te by (simp add: eol_def split: list.splits)
  qed
qed

subsection \<open>Declaration bindings\<close>

definition INCLUDE :: string where
  "INCLUDE = ''#:section''"

definition IF :: string where
  "IF = ''#:if''"

definition ELSE :: string where
  "ELSE = ''#:else''"

definition ENDIF :: string where
  "ENDIF = ''#:endif''"

definition MANIFEST_START :: string where
  "MANIFEST_START = ''0o ---''"

definition MANIFEST_END :: string where
  "MANIFEST_END = ''--- o0''"

subsection \<open>Manifest\<close>

text \<open>
  The first loop of \<^verbatim>\<open>Manifest.parse\<close>: the lines collected while \<^verbatim>\<open>inside\<close>, up to the
  \<^verbatim>\<open>break\<close> at the end sentinel.
\<close>

fun collect :: "bool \<Rightarrow> string list \<Rightarrow> string list" where
  "collect inside [] = []"
| "collect inside (line # rest) =
     (let stripped = py_strip line in
      if stripped = MANIFEST_START then collect True rest
      else if stripped = MANIFEST_END then []
      else if inside then line # collect inside rest
      else collect inside rest)"

text \<open>The body of the second loop: one collected line stored into \<^verbatim>\<open>manifest.data\<close>.\<close>

definition add_line :: "string \<Rightarrow> (string \<rightharpoonup> string) \<Rightarrow> (string \<rightharpoonup> string)" where
  "add_line line data =
     (if CHR '':'' \<in> set line
      then (case split_colon line of (k, v) \<Rightarrow> data(py_strip k \<mapsto> py_strip v))
      else data)"

definition parse :: "string \<Rightarrow> (string \<rightharpoonup> string)" where
  "parse text = fold add_line (collect False (splitlines False text)) Map.empty"

subsection \<open>Assembler\<close>

fun strip_lines :: "bool \<Rightarrow> string list \<Rightarrow> string list" where
  "strip_lines inside [] = []"
| "strip_lines inside (line # rest) =
     (let stripped = py_strip line in
      if stripped = MANIFEST_START then strip_lines True rest
      else if stripped = MANIFEST_END then strip_lines False rest
      else if \<not> inside then line # strip_lines inside rest
      else strip_lines inside rest)"

definition strip_manifest :: "string \<Rightarrow> string" where
  "strip_manifest text = concat (strip_lines False (splitlines True text))"

text \<open>
  The fields of \<^verbatim>\<open>CodeAssembler\<close>. The field \<^verbatim>\<open>root\<close> is part of the file system below:
  \<^verbatim>\<open>(self.root / file).resolve()\<close> is \<open>resolve\<close>, and \<^verbatim>\<open>read_text\<close> of a canonical path is
  \<open>read_text\<close>, with \<open>None\<close> where reading fails.
\<close>

record assembler =
  visited :: "string set"
  "defines" :: "string set"
  manifest :: "string \<rightharpoonup> string"

record filesys =
  resolve :: "string \<Rightarrow> string"
  read_text :: "string \<rightharpoonup> string"

datatype error =
    CircularInclude string
  | UnmatchedElse
  | UnmatchedEndif
  | IndexError
  | ReadError string

text \<open>The local variables of \<^verbatim>\<open>build\<close> during its loop, and \<^verbatim>\<open>self\<close>.\<close>

record loop_state =
  "output" :: "string list"
  skip_stack :: "bool list"
  self :: assembler

text \<open>\<^verbatim>\<open>any(skip_stack)\<close>\<close>

fun py_any :: "bool list \<Rightarrow> bool" where
  "py_any [] = False"
| "py_any (b # bs) = (b \<or> py_any bs)"

text \<open>
  One iteration of the loop of \<^verbatim>\<open>build\<close> over the lines. \<open>rec\<close> is the recursive call
  \<^verbatim>\<open>self.build(include_path)\<close>; \<open>None\<close> is a call that has not returned. An exception
  is \<open>Inl\<close>, and ends the build.
\<close>

definition step ::
  "(assembler \<Rightarrow> string \<Rightarrow> (error + string \<times> assembler) option) \<Rightarrow>
   loop_state \<Rightarrow> string \<Rightarrow> (error + loop_state) option" where
  "step rec st line =
     (let stripped = py_strip line in
      if startswith stripped INCLUDE then
        (if \<not> py_any (skip_stack st) then
           (case py_split1 stripped of
              _ # include_path # _ \<Rightarrow>
                (case rec (self st) include_path of
                   None \<Rightarrow> None
                 | Some (Inl e) \<Rightarrow> Some (Inl e)
                 | Some (Inr (text, self')) \<Rightarrow>
                     Some (Inr (st\<lparr>output := output st @ [text], self := self'\<rparr>)))
            | _ \<Rightarrow> Some (Inl IndexError))
         else Some (Inr st))
      else if startswith stripped IF then
        (case py_split1 stripped of
           _ # condition # _ \<Rightarrow>
             Some (Inr (st\<lparr>skip_stack :=
                          skip_stack st @ [condition \<notin> defines (self st)]\<rparr>))
         | _ \<Rightarrow> Some (Inl IndexError))
      else if startswith stripped ELSE then
        (if skip_stack st = [] then Some (Inl UnmatchedElse)
         else
           (let parent_skipping = py_any (butlast (skip_stack st)) in
            if \<not> parent_skipping then
              Some (Inr (st\<lparr>skip_stack :=
                           (skip_stack st)[length (skip_stack st) - 1 :=
                              \<not> last (skip_stack st)]\<rparr>))
            else Some (Inr st)))
      else if startswith stripped ENDIF then
        (if skip_stack st = [] then Some (Inl UnmatchedEndif)
         else Some (Inr (st\<lparr>skip_stack := butlast (skip_stack st)\<rparr>)))
      else if \<not> py_any (skip_stack st) then
        Some (Inr (st\<lparr>output := output st @ [line]\<rparr>))
      else Some (Inr st))"

fun lines_loop ::
  "(assembler \<Rightarrow> string \<Rightarrow> (error + string \<times> assembler) option) \<Rightarrow>
   loop_state \<Rightarrow> string list \<Rightarrow> (error + loop_state) option" where
  "lines_loop rec st [] = Some (Inr st)"
| "lines_loop rec st (line # rest) =
     (case step rec st line of
        None \<Rightarrow> None
      | Some (Inl e) \<Rightarrow> Some (Inl e)
      | Some (Inr st') \<Rightarrow> lines_loop rec st' rest)"

text \<open>
  \<^verbatim>\<open>CodeAssembler.build\<close>. The first argument bounds the depth of the recursion through
  include lines: \<open>None\<close> is a build that needs a deeper recursion than that.
\<close>

primrec build ::
  "nat \<Rightarrow> filesys \<Rightarrow> assembler \<Rightarrow> string \<Rightarrow> (error + string \<times> assembler) option" where
  "build 0 fsys slf file = None"
| "build (Suc n) fsys slf file =
     (let p = resolve fsys file in
      if p \<in> visited slf then Some (Inl (CircularInclude p))
      else
        (let slf1 = slf\<lparr>visited := insert p (visited slf)\<rparr> in
         case read_text fsys p of
           None \<Rightarrow> Some (Inl (ReadError p))
         | Some text \<Rightarrow>
             (case lines_loop (build n fsys)
                     \<lparr>output = [], skip_stack = [], self = slf1\<rparr>
                     (splitlines True (strip_manifest text)) of
                None \<Rightarrow> None
              | Some (Inl e) \<Rightarrow> Some (Inl e)
              | Some (Inr st) \<Rightarrow> Some (Inr (concat (output st), self st)))))"

text \<open>\<^verbatim>\<open>CodeAssembler.load_manifest\<close>\<close>

definition load_manifest :: "filesys \<Rightarrow> assembler \<Rightarrow> string \<Rightarrow> error + assembler" where
  "load_manifest fsys slf file =
     (let path = resolve fsys file in
      case read_text fsys path of
        None \<Rightarrow> Inl (ReadError path)
      | Some text \<Rightarrow> Inr (slf\<lparr>manifest := parse text\<rparr>))"

text \<open>
  \<^verbatim>\<open>run_build\<close> up to the text it writes or runs: the visited set is cleared, the
  manifest is loaded, the input file is built, and the shebang line is put in front.
\<close>

definition run_build :: "nat \<Rightarrow> filesys \<Rightarrow> assembler \<Rightarrow> string \<Rightarrow> (error + string) option" where
  "run_build n fsys assembler input_file =
     (case load_manifest fsys (assembler\<lparr>visited := {}\<rparr>) input_file of
        Inl e \<Rightarrow> Some (Inl e)
      | Inr assembler1 \<Rightarrow>
          (case build n fsys assembler1 input_file of
             None \<Rightarrow> None
           | Some (Inl e) \<Rightarrow> Some (Inl e)
           | Some (Inr (result, assembler2)) \<Rightarrow>
               (case manifest assembler1 ''shebang'' of
                  None \<Rightarrow> Some (Inr result)
                | Some shebang \<Rightarrow>
                    if shebang \<noteq> [] then Some (Inr (''#!'' @ shebang @ [LF] @ result))
                    else Some (Inr result))))"

text \<open>A line that is none of the four directives: the last branch of the loop handles it.\<close>

definition plain :: "string \<Rightarrow> bool" where
  "plain line \<longleftrightarrow>
     (let stripped = py_strip line in
      \<not> startswith stripped INCLUDE \<and> \<not> startswith stripped IF \<and>
      \<not> startswith stripped ELSE \<and> \<not> startswith stripped ENDIF)"

subsection \<open>The shape of the lines of a text\<close>




subsection \<open>Well-nested lines\<close>

text \<open>
  The nesting depth of conditional directives along a list of lines, from a depth \<open>d\<close>:
  an if-line with its argument opens a level, an endif-line closes one, and an else-line or
  endif-line at depth \<open>0\<close> has no if-line of the list to belong to (\<open>None\<close>). A
  well-nested list closes every level it opens and no other.
\<close>

fun nest :: "nat \<Rightarrow> string list \<Rightarrow> nat option" where
  "nest d [] = Some d"
| "nest d (line # rest) =
     (let stripped = py_strip line in
      if startswith stripped INCLUDE then nest d rest
      else if startswith stripped IF then
        (if length (py_split1 stripped) < 2 then None else nest (Suc d) rest)
      else if startswith stripped ELSE then (if d = 0 then None else nest d rest)
      else if startswith stripped ENDIF then (if d = 0 then None else nest (d - 1) rest)
      else nest d rest)"


text \<open>
  Two results of the loop that differ only in the frames \<open>b1\<close> and \<open>b2\<close> at the bottom of
  the stack, with \<open>d\<close> frames above them.
\<close>

definition same_upto_base ::
  "bool list \<Rightarrow> bool list \<Rightarrow> nat \<Rightarrow> (error + loop_state) option \<Rightarrow> (error + loop_state) option \<Rightarrow> bool" where
  "same_upto_base b1 b2 d r1 r2 \<longleftrightarrow>
     (r1 = None \<and> r2 = None) \<or>
     (\<exists>e. r1 = Some (Inl e) \<and> r2 = Some (Inl e)) \<or>
     (\<exists>st' s'. length s' = d \<and>
        r1 = Some (Inr (st'\<lparr>skip_stack := b1 @ s'\<rparr>)) \<and>
        r2 = Some (Inr (st'\<lparr>skip_stack := b2 @ s'\<rparr>)))"

section \<open>Properties\<close>

subsection \<open>The loop body, directive by directive\<close>

lemma startswith_iff: "startswith s p \<longleftrightarrow> (\<exists>r. s = p @ r)"
proof
  assume "startswith s p"
  then have "s = p @ drop (length p) s"
    by (metis append_take_drop_id startswith_def)
  then show "\<exists>r. s = p @ r" ..
next
  assume "\<exists>r. s = p @ r"
  then show "startswith s p"
    by (auto simp: startswith_def)
qed

lemma else_not_include: "startswith s ELSE \<Longrightarrow> \<not> startswith s INCLUDE"
  by (auto simp: startswith_iff ELSE_def INCLUDE_def)

lemma else_not_if: "startswith s ELSE \<Longrightarrow> \<not> startswith s IF"
  by (auto simp: startswith_iff ELSE_def IF_def)

lemma endif_not_include: "startswith s ENDIF \<Longrightarrow> \<not> startswith s INCLUDE"
  by (auto simp: startswith_iff ENDIF_def INCLUDE_def)

lemma endif_not_if: "startswith s ENDIF \<Longrightarrow> \<not> startswith s IF"
  by (auto simp: startswith_iff ENDIF_def IF_def)

lemma endif_not_else: "startswith s ENDIF \<Longrightarrow> \<not> startswith s ELSE"
  by (auto simp: startswith_iff ENDIF_def ELSE_def)

lemma if_not_include: "startswith s IF \<Longrightarrow> \<not> startswith s INCLUDE"
  by (auto simp: startswith_iff IF_def INCLUDE_def)

lemma step_include:
  "startswith (py_strip line) INCLUDE \<Longrightarrow>
   step rec st line =
     (if \<not> py_any (skip_stack st) then
        (case py_split1 (py_strip line) of
           _ # include_path # _ \<Rightarrow>
             (case rec (self st) include_path of
                None \<Rightarrow> None
              | Some (Inl e) \<Rightarrow> Some (Inl e)
              | Some (Inr (text, self')) \<Rightarrow>
                  Some (Inr (st\<lparr>output := output st @ [text], self := self'\<rparr>)))
         | _ \<Rightarrow> Some (Inl IndexError))
      else Some (Inr st))"
  by (simp add: step_def Let_def)

lemma step_if:
  "startswith (py_strip line) IF \<Longrightarrow>
   step rec st line =
     (case py_split1 (py_strip line) of
        _ # condition # _ \<Rightarrow>
          Some (Inr (st\<lparr>skip_stack := skip_stack st @ [condition \<notin> defines (self st)]\<rparr>))
      | _ \<Rightarrow> Some (Inl IndexError))"
  by (simp add: step_def Let_def if_not_include)

lemma step_else:
  "startswith (py_strip line) ELSE \<Longrightarrow>
   step rec st line =
     (if skip_stack st = [] then Some (Inl UnmatchedElse)
      else if \<not> py_any (butlast (skip_stack st)) then
        Some (Inr (st\<lparr>skip_stack :=
                     (skip_stack st)[length (skip_stack st) - 1 := \<not> last (skip_stack st)]\<rparr>))
      else Some (Inr st))"
  by (simp add: step_def Let_def else_not_include else_not_if)

lemma step_endif:
  "startswith (py_strip line) ENDIF \<Longrightarrow>
   step rec st line =
     (if skip_stack st = [] then Some (Inl UnmatchedEndif)
      else Some (Inr (st\<lparr>skip_stack := butlast (skip_stack st)\<rparr>)))"
  by (simp add: step_def Let_def endif_not_include endif_not_if endif_not_else)

lemma step_plain:
  "plain line \<Longrightarrow>
   step rec st line =
     (if \<not> py_any (skip_stack st) then Some (Inr (st\<lparr>output := output st @ [line]\<rparr>))
      else Some (Inr st))"
  by (simp add: step_def Let_def plain_def)

lemma update_last: "xs \<noteq> [] \<Longrightarrow> xs[length xs - Suc 0 := v] = butlast xs @ [v]"
  by (induction xs rule: rev_induct) auto

lemmas py_defs = py_strip_def is_space_def startswith_def py_split1_def not_space_def
  INCLUDE_def IF_def ELSE_def ENDIF_def

subsection \<open>The else directive\<close>

text \<open>
  Claim C3. An \<^verbatim>\<open>#:else\<close> line processed with a non-empty conditional stack leaves the
  output and the assembler as they are and changes at most the top frame: the stack keeps
  its length and every frame below the top, and the top frame is inverted when no frame
  below it is skipping, and kept when one is.
\<close>

theorem else_flips_only_top:
  assumes "startswith (py_strip line) ELSE" and "skip_stack st \<noteq> []"
  shows "\<exists>st'. step rec st line = Some (Inr st') \<and>
           output st' = output st \<and> self st' = self st \<and>
           length (skip_stack st') = length (skip_stack st) \<and>
           butlast (skip_stack st') = butlast (skip_stack st) \<and>
           last (skip_stack st') =
             (if py_any (butlast (skip_stack st)) then last (skip_stack st)
              else \<not> last (skip_stack st))"
  using assms by (simp add: step_else update_last)

theorem else_flips_only_top_witness:
  "startswith (py_strip ''  #:else\<newline>'') ELSE \<and>
   (\<exists>st'. step (\<lambda>a f. None)
             \<lparr>output = [], skip_stack = [False, True],
              self = \<lparr>visited = {}, defines = {}, manifest = Map.empty\<rparr>\<rparr>
             ''  #:else\<newline>'' = Some (Inr st') \<and>
          butlast (skip_stack st') = [False] \<and> last (skip_stack st') = False)"
  using else_flips_only_top [of "''  #:else\<newline>''"
      "\<lparr>output = [], skip_stack = [False, True],
        self = \<lparr>visited = {}, defines = {}, manifest = Map.empty\<rparr>\<rparr>" "\<lambda>a f. None"]
  by (simp add: py_defs) blast

subsection \<open>The loop over the lines of one file\<close>

lemma lines_loop_append:
  "lines_loop rec st (xs @ ys) =
     (case lines_loop rec st xs of
        None \<Rightarrow> None
      | Some (Inl e) \<Rightarrow> Some (Inl e)
      | Some (Inr st') \<Rightarrow> lines_loop rec st' ys)"
  by (induction xs arbitrary: st) (auto split: option.splits sum.splits)

lemma lines_loop_plain:
  "\<forall>l \<in> set ls. plain l \<Longrightarrow>
   lines_loop rec st ls =
     Some (Inr (if py_any (skip_stack st) then st else st\<lparr>output := output st @ ls\<rparr>))"
  by (induction ls arbitrary: st) (auto simp: step_plain)

lemma build_Suc:
  "resolve fsys file \<notin> visited slf \<Longrightarrow> read_text fsys (resolve fsys file) = Some text \<Longrightarrow>
   build (Suc n) fsys slf file =
     (case lines_loop (build n fsys)
             \<lparr>output = [], skip_stack = [],
              self = slf\<lparr>visited := insert (resolve fsys file) (visited slf)\<rparr>\<rparr>
             (splitlines True (strip_manifest text)) of
        None \<Rightarrow> None
      | Some (Inl e) \<Rightarrow> Some (Inl e)
      | Some (Inr st) \<Rightarrow> Some (Inr (concat (output st), self st)))"
  by (simp add: Let_def)

subsection \<open>A directive without its argument\<close>

text \<open>
  Claim C9. When the lines before it have been processed without a failure, a line whose
  trimmed form is exactly \<^verbatim>\<open>#:if\<close>, or exactly \<^verbatim>\<open>#:section\<close> while no frame is skipping,
  makes \<^verbatim>\<open>build\<close> fail with the \<^verbatim>\<open>IndexError\<close> of \<^verbatim>\<open>split(maxsplit=1)[1]\<close>, which is none of
  circular include, unmatched else, unmatched endif and missing file.
\<close>

theorem missing_argument_index_error:
  assumes "resolve fsys file \<notin> visited slf"
    and "read_text fsys (resolve fsys file) = Some text"
    and "splitlines True (strip_manifest text) = pre @ line # post"
    and "lines_loop (build n fsys)
           \<lparr>output = [], skip_stack = [],
            self = slf\<lparr>visited := insert (resolve fsys file) (visited slf)\<rparr>\<rparr> pre = Some (Inr st)"
    and "py_strip line = IF \<or> (py_strip line = INCLUDE \<and> \<not> py_any (skip_stack st))"
  shows "build (Suc n) fsys slf file = Some (Inl IndexError) \<and>
         (\<forall>p. IndexError \<notin> {CircularInclude p, UnmatchedElse, UnmatchedEndif, ReadError p})"
proof -
  have split_IF: "py_split1 IF = [IF]"
    by (simp add: py_defs)
  have split_INCLUDE: "py_split1 INCLUDE = [INCLUDE]"
    by (simp add: py_defs)
  have "step (build n fsys) st line = Some (Inl IndexError)"
  proof (cases "py_strip line = IF")
    case True
    then show ?thesis
      by (simp add: step_if startswith_def split_IF)
  next
    case False
    with assms(5) have "py_strip line = INCLUDE" and "\<not> py_any (skip_stack st)"
      by auto
    then show ?thesis
      by (simp add: step_include startswith_def split_INCLUDE)
  qed
  then have "lines_loop (build n fsys)
           \<lparr>output = [], skip_stack = [],
            self = slf\<lparr>visited := insert (resolve fsys file) (visited slf)\<rparr>\<rparr>
           (pre @ line # post) = Some (Inl IndexError)"
    using assms(4) by (simp add: lines_loop_append)
  then show ?thesis
    using assms(1,2,3) by (simp add: build_Suc)
qed

theorem missing_argument_index_error_witness:
  "build (Suc 0) \<lparr>resolve = (\<lambda>f. f), read_text = [''main.obun'' \<mapsto> ''a\<newline>#:if\<newline>b\<newline>'']\<rparr>
     \<lparr>visited = {}, defines = {}, manifest = Map.empty\<rparr> ''main.obun'' = Some (Inl IndexError)"
proof -
  have lines: "splitlines True (strip_manifest ''a\<newline>#:if\<newline>b\<newline>'') =
      [''a\<newline>''] @ ''#:if\<newline>'' # [''b\<newline>'']"
    by code_simp
  have pre: "lines_loop (build 0 \<lparr>resolve = (\<lambda>f. f), read_text = [''main.obun'' \<mapsto> ''a\<newline>#:if\<newline>b\<newline>'']\<rparr>)
      \<lparr>output = [], skip_stack = [],
       self = \<lparr>visited = {}, defines = {}, manifest = Map.empty\<rparr>\<lparr>visited := insert ''main.obun'' {}\<rparr>\<rparr>
      [''a\<newline>''] =
      Some (Inr \<lparr>output = [''a\<newline>''], skip_stack = [],
       self = \<lparr>visited = {''main.obun''}, defines = {}, manifest = Map.empty\<rparr>\<rparr>)"
    by (simp add: step_def py_defs)
  have line: "py_strip ''#:if\<newline>'' = IF"
    by (simp add: py_defs)
  show ?thesis
    using missing_argument_index_error [of
        "\<lparr>resolve = (\<lambda>f. f), read_text = [''main.obun'' \<mapsto> ''a\<newline>#:if\<newline>b\<newline>'']\<rparr>"
        "''main.obun''" "\<lparr>visited = {}, defines = {}, manifest = Map.empty\<rparr>"
        "''a\<newline>#:if\<newline>b\<newline>''" "[''a\<newline>'']" "''#:if\<newline>''" "[''b\<newline>'']" 0
        "\<lparr>output = [''a\<newline>''], skip_stack = [],
          self = \<lparr>visited = {''main.obun''}, defines = {}, manifest = Map.empty\<rparr>\<rparr>"]
      lines pre line
    by simp
qed

subsection \<open>Directives are recognised by prefix\<close>

text \<open>
  Claim C10. A line is classified by the prefix of its trimmed form alone, whatever follows
  the token: a trimmed line that starts with \<^verbatim>\<open>#:section\<close> is an include of the second word
  of the line (and is dropped while a frame is skipping), one that starts with \<^verbatim>\<open>#:if\<close>
  pushes the frame of the second word, one that starts with \<^verbatim>\<open>#:else\<close> is the else
  directive and one that starts with \<^verbatim>\<open>#:endif\<close> pops the top frame. The tests are made in
  the order include, if, else, endif; no line passes two of them (lemmas
  \<open>if_not_include\<close> to \<open>endif_not_else\<close>). The instance after it runs \<^verbatim>\<open>#:ifdef X\<close> and
  \<^verbatim>\<open>#:sectionX lib/util.py\<close>.
\<close>

theorem directive_by_prefix:
  "(py_strip line = INCLUDE @ tail \<longrightarrow> py_split1 (py_strip line) = [tok, arg] \<longrightarrow>
      \<not> py_any (skip_stack st) \<longrightarrow>
      step rec st line =
        (case rec (self st) arg of
           None \<Rightarrow> None
         | Some (Inl e) \<Rightarrow> Some (Inl e)
         | Some (Inr (text, self')) \<Rightarrow>
             Some (Inr (st\<lparr>output := output st @ [text], self := self'\<rparr>)))) \<and>
   (py_strip line = INCLUDE @ tail \<longrightarrow> py_any (skip_stack st) \<longrightarrow>
      step rec st line = Some (Inr st)) \<and>
   (py_strip line = IF @ tail \<longrightarrow> py_split1 (py_strip line) = [tok, arg] \<longrightarrow>
      step rec st line =
        Some (Inr (st\<lparr>skip_stack := skip_stack st @ [arg \<notin> defines (self st)]\<rparr>))) \<and>
   (py_strip line = ELSE @ tail \<longrightarrow> skip_stack st \<noteq> [] \<longrightarrow>
      step rec st line =
        Some (Inr (st\<lparr>skip_stack :=
                     if py_any (butlast (skip_stack st)) then skip_stack st
                     else butlast (skip_stack st) @ [\<not> last (skip_stack st)]\<rparr>))) \<and>
   (py_strip line = ENDIF @ tail \<longrightarrow> skip_stack st \<noteq> [] \<longrightarrow>
      step rec st line = Some (Inr (st\<lparr>skip_stack := butlast (skip_stack st)\<rparr>)))"
proof -
  have "startswith (p @ tail) p" for p
    by (simp add: startswith_def)
  then show ?thesis
    by (simp add: step_include step_if step_else step_endif update_last)
qed

theorem directive_by_prefix_witness:
  "step (\<lambda>a p. None)
     \<lparr>output = [], skip_stack = [],
      self = \<lparr>visited = {}, defines = {''X''}, manifest = Map.empty\<rparr>\<rparr>
     ''#:ifdef X\<newline>'' =
     Some (Inr \<lparr>output = [], skip_stack = [False],
       self = \<lparr>visited = {}, defines = {''X''}, manifest = Map.empty\<rparr>\<rparr>) \<and>
   step (\<lambda>a p. Some (Inr (p, a)))
     \<lparr>output = [], skip_stack = [],
      self = \<lparr>visited = {}, defines = {}, manifest = Map.empty\<rparr>\<rparr>
     ''#:sectionX lib/util.py\<newline>'' =
     Some (Inr \<lparr>output = [''lib/util.py''], skip_stack = [],
       self = \<lparr>visited = {}, defines = {}, manifest = Map.empty\<rparr>\<rparr>)"
  using directive_by_prefix [of "''#:ifdef X\<newline>''" "''def X''" "''#:ifdef''" "''X''"
      "\<lparr>output = [], skip_stack = [],
        self = \<lparr>visited = {}, defines = {''X''}, manifest = Map.empty\<rparr>\<rparr>" "\<lambda>a p. None"]
    directive_by_prefix [of "''#:sectionX lib/util.py\<newline>''" "''X lib/util.py''" "''#:sectionX''"
      "''lib/util.py''"
      "\<lparr>output = [], skip_stack = [],
        self = \<lparr>visited = {}, defines = {}, manifest = Map.empty\<rparr>\<rparr>" "\<lambda>a p. Some (Inr (p, a))"]
  by (simp add: py_defs)

lemma lines_loop_error_iff:
  "lines_loop rec st ls = Some (Inl e) \<longleftrightarrow>
     (\<exists>pre line post st'. ls = pre @ line # post \<and>
        lines_loop rec st pre = Some (Inr st') \<and> step rec st' line = Some (Inl e))"
proof (induction ls arbitrary: st)
  case Nil
  then show ?case by simp
next
  case (Cons l ls)
  show ?case
  proof (cases "step rec st l")
    case None
    have "\<not> (\<exists>pre line post st'. l # ls = pre @ line # post \<and>
        lines_loop rec st pre = Some (Inr st') \<and> step rec st' line = Some (Inl e))"
    proof
      assume "\<exists>pre line post st'. l # ls = pre @ line # post \<and>
        lines_loop rec st pre = Some (Inr st') \<and> step rec st' line = Some (Inl e)"
      then obtain pre line post st' where *: "l # ls = pre @ line # post"
        "lines_loop rec st pre = Some (Inr st')" "step rec st' line = Some (Inl e)"
        by blast
      show False
      proof (cases pre)
        case Nil
        with * None show False by simp
      next
        case (Cons a pre')
        with * None show False by simp
      qed
    qed
    with None show ?thesis by simp
  next
    case (Some r)
    show ?thesis
    proof (cases r)
      case (Inl e')
      show ?thesis
      proof
        assume "lines_loop rec st (l # ls) = Some (Inl e)"
        with Some Inl have "step rec st l = Some (Inl e)" by simp
        then have "l # ls = [] @ l # ls \<and> lines_loop rec st [] = Some (Inr st) \<and>
            step rec st l = Some (Inl e)"
          by simp
        then show "\<exists>pre line post st'. l # ls = pre @ line # post \<and>
          lines_loop rec st pre = Some (Inr st') \<and> step rec st' line = Some (Inl e)"
          by blast
      next
        assume "\<exists>pre line post st'. l # ls = pre @ line # post \<and>
          lines_loop rec st pre = Some (Inr st') \<and> step rec st' line = Some (Inl e)"
        then obtain pre line post st' where *: "l # ls = pre @ line # post"
          "lines_loop rec st pre = Some (Inr st')" "step rec st' line = Some (Inl e)"
          by blast
        show "lines_loop rec st (l # ls) = Some (Inl e)"
        proof (cases pre)
          case Nil
          with * show ?thesis by simp
        next
          case (Cons a pre')
          with * Some Inl show ?thesis by simp
        qed
      qed
    next
      case (Inr st1)
      have "lines_loop rec st (l # ls) = lines_loop rec st1 ls"
        using Some Inr by simp
      also have "\<dots> = Some (Inl e) \<longleftrightarrow>
        (\<exists>pre line post st'. ls = pre @ line # post \<and>
          lines_loop rec st1 pre = Some (Inr st') \<and> step rec st' line = Some (Inl e))"
        by (rule Cons.IH)
      also have "\<dots> \<longleftrightarrow>
        (\<exists>pre line post st'. l # ls = pre @ line # post \<and>
          lines_loop rec st pre = Some (Inr st') \<and> step rec st' line = Some (Inl e))"
      proof
        assume "\<exists>pre line post st'. ls = pre @ line # post \<and>
          lines_loop rec st1 pre = Some (Inr st') \<and> step rec st' line = Some (Inl e)"
        then obtain pre line post st' where *: "ls = pre @ line # post"
          "lines_loop rec st1 pre = Some (Inr st')" "step rec st' line = Some (Inl e)"
          by blast
        then have "l # ls = (l # pre) @ line # post \<and>
            lines_loop rec st (l # pre) = Some (Inr st') \<and> step rec st' line = Some (Inl e)"
          using Some Inr by simp
        then show "\<exists>pre line post st'. l # ls = pre @ line # post \<and>
          lines_loop rec st pre = Some (Inr st') \<and> step rec st' line = Some (Inl e)"
          by blast
      next
        assume "\<exists>pre line post st'. l # ls = pre @ line # post \<and>
          lines_loop rec st pre = Some (Inr st') \<and> step rec st' line = Some (Inl e)"
        then obtain pre line post st' where *: "l # ls = pre @ line # post"
          "lines_loop rec st pre = Some (Inr st')" "step rec st' line = Some (Inl e)"
          by blast
        show "\<exists>pre line post st'. ls = pre @ line # post \<and>
          lines_loop rec st1 pre = Some (Inr st') \<and> step rec st' line = Some (Inl e)"
        proof (cases pre)
          case Nil
          with * Some Inr show ?thesis by simp
        next
          case (Cons a pre')
          with * Some Inr have "ls = pre' @ line # post \<and>
            lines_loop rec st1 pre' = Some (Inr st') \<and> step rec st' line = Some (Inl e)"
            by simp
          then show ?thesis by blast
        qed
      qed
      finally show ?thesis .
    qed
  qed
qed

lemma step_error_else_iff:
  "step rec st line = Some (Inl UnmatchedElse) \<longleftrightarrow>
     (startswith (py_strip line) ELSE \<and> skip_stack st = []) \<or>
     (startswith (py_strip line) INCLUDE \<and> \<not> py_any (skip_stack st) \<and>
      (\<exists>tok path rest. py_split1 (py_strip line) = tok # path # rest \<and>
         rec (self st) path = Some (Inl UnmatchedElse)))"
proof (cases "startswith (py_strip line) INCLUDE")
  case True
  then have "\<not> startswith (py_strip line) ELSE"
    using else_not_include by blast
  with True show ?thesis
    by (auto simp: step_include split: list.splits option.splits sum.splits)
next
  case inc: False
  show ?thesis
  proof (cases "startswith (py_strip line) IF")
    case True
    then have "\<not> startswith (py_strip line) ELSE"
      using else_not_if by blast
    with True inc show ?thesis
      by (auto simp: step_if split: list.splits)
  next
    case nif: False
    show ?thesis
    proof (cases "startswith (py_strip line) ELSE")
      case True
      with inc show ?thesis
        by (simp add: step_else)
    next
      case nelse: False
      show ?thesis
      proof (cases "startswith (py_strip line) ENDIF")
        case True
        with inc nelse show ?thesis
          by (simp add: step_endif)
      next
        case False
        with inc nif nelse have "plain line"
          by (simp add: plain_def)
        with inc nelse show ?thesis
          by (simp add: step_plain)
      qed
    qed
  qed
qed

lemma step_error_endif_iff:
  "step rec st line = Some (Inl UnmatchedEndif) \<longleftrightarrow>
     (startswith (py_strip line) ENDIF \<and> skip_stack st = []) \<or>
     (startswith (py_strip line) INCLUDE \<and> \<not> py_any (skip_stack st) \<and>
      (\<exists>tok path rest. py_split1 (py_strip line) = tok # path # rest \<and>
         rec (self st) path = Some (Inl UnmatchedEndif)))"
proof (cases "startswith (py_strip line) INCLUDE")
  case True
  then have "\<not> startswith (py_strip line) ENDIF"
    using endif_not_include by blast
  with True show ?thesis
    by (auto simp: step_include split: list.splits option.splits sum.splits)
next
  case inc: False
  show ?thesis
  proof (cases "startswith (py_strip line) IF")
    case True
    then have "\<not> startswith (py_strip line) ENDIF"
      using endif_not_if by blast
    with True inc show ?thesis
      by (auto simp: step_if split: list.splits)
  next
    case nif: False
    show ?thesis
    proof (cases "startswith (py_strip line) ELSE")
      case True
      then have "\<not> startswith (py_strip line) ENDIF"
        using endif_not_else by blast
      with True inc show ?thesis
        by (simp add: step_else)
    next
      case nelse: False
      show ?thesis
      proof (cases "startswith (py_strip line) ENDIF")
        case True
        with inc show ?thesis
          by (simp add: step_endif)
      next
        case False
        with inc nif nelse have "plain line"
          by (simp add: plain_def)
        with inc False show ?thesis
          by (simp add: step_plain)
      qed
    qed
  qed
qed

lemma build_error_iff:
  "build (Suc n) fsys slf file = Some (Inl e) \<longleftrightarrow>
     (resolve fsys file \<in> visited slf \<and> e = CircularInclude (resolve fsys file)) \<or>
     (resolve fsys file \<notin> visited slf \<and> read_text fsys (resolve fsys file) = None \<and>
      e = ReadError (resolve fsys file)) \<or>
     (resolve fsys file \<notin> visited slf \<and>
      (\<exists>text. read_text fsys (resolve fsys file) = Some text \<and>
         lines_loop (build n fsys)
           \<lparr>output = [], skip_stack = [],
            self = slf\<lparr>visited := insert (resolve fsys file) (visited slf)\<rparr>\<rparr>
           (splitlines True (strip_manifest text)) = Some (Inl e)))"
  by (auto simp: Let_def split: option.splits sum.splits)

subsection \<open>Unmatched else and endif\<close>

text \<open>
  Claim C7. \<^verbatim>\<open>build\<close> of a file fails with the unmatched-else error exactly when, the lines
  before it having been processed without a failure, an \<^verbatim>\<open>#:else\<close> line is met with an empty
  conditional stack, in this file or (through an include line that is executed) in the
  build of an included file; and likewise with the unmatched-endif error and an \<^verbatim>\<open>#:endif\<close>
  line. The failure is the result of the whole build: no text is returned.
\<close>

theorem unmatched_else_endif:
  "(build (Suc n) fsys slf file = Some (Inl UnmatchedElse) \<longleftrightarrow>
      resolve fsys file \<notin> visited slf \<and>
      (\<exists>text pre line post st.
         read_text fsys (resolve fsys file) = Some text \<and>
         splitlines True (strip_manifest text) = pre @ line # post \<and>
         lines_loop (build n fsys)
           \<lparr>output = [], skip_stack = [],
            self = slf\<lparr>visited := insert (resolve fsys file) (visited slf)\<rparr>\<rparr>
           pre = Some (Inr st) \<and>
         (startswith (py_strip line) ELSE \<and> skip_stack st = [] \<or>
          startswith (py_strip line) INCLUDE \<and> \<not> py_any (skip_stack st) \<and>
          (\<exists>tok path rest. py_split1 (py_strip line) = tok # path # rest \<and>
             build n fsys (self st) path = Some (Inl UnmatchedElse))))) \<and>
   (build (Suc n) fsys slf file = Some (Inl UnmatchedEndif) \<longleftrightarrow>
      resolve fsys file \<notin> visited slf \<and>
      (\<exists>text pre line post st.
         read_text fsys (resolve fsys file) = Some text \<and>
         splitlines True (strip_manifest text) = pre @ line # post \<and>
         lines_loop (build n fsys)
           \<lparr>output = [], skip_stack = [],
            self = slf\<lparr>visited := insert (resolve fsys file) (visited slf)\<rparr>\<rparr>
           pre = Some (Inr st) \<and>
         (startswith (py_strip line) ENDIF \<and> skip_stack st = [] \<or>
          startswith (py_strip line) INCLUDE \<and> \<not> py_any (skip_stack st) \<and>
          (\<exists>tok path rest. py_split1 (py_strip line) = tok # path # rest \<and>
             build n fsys (self st) path = Some (Inl UnmatchedEndif)))))"
  unfolding build_error_iff lines_loop_error_iff step_error_else_iff step_error_endif_iff
  by (intro conjI) (simp, blast)+

theorem unmatched_else_endif_witness:
  "build (Suc 0) \<lparr>resolve = (\<lambda>f. f), read_text = [''main.obun'' \<mapsto> ''x\<newline>#:else\<newline>'']\<rparr>
     \<lparr>visited = {}, defines = {}, manifest = Map.empty\<rparr> ''main.obun'' = Some (Inl UnmatchedElse)"
proof -
  let ?text = "''x\<newline>#:else\<newline>''"
  let ?fs = "\<lparr>resolve = (\<lambda>f. f), read_text = [''main.obun'' \<mapsto> ?text]\<rparr>"
  let ?slf = "\<lparr>visited = {}, defines = {}, manifest = Map.empty\<rparr>"
  let ?st = "\<lparr>output = [''x\<newline>''], skip_stack = [],
       self = \<lparr>visited = {''main.obun''}, defines = {}, manifest = Map.empty\<rparr>\<rparr>"
  have lines: "splitlines True (strip_manifest ?text) = [''x\<newline>''] @ ''#:else\<newline>'' # []"
    by code_simp
  have pre: "lines_loop (build 0 ?fs)
      \<lparr>output = [], skip_stack = [],
       self = ?slf\<lparr>visited := insert (resolve ?fs ''main.obun'') (visited ?slf)\<rparr>\<rparr>
      [''x\<newline>''] = Some (Inr ?st)"
    by (simp add: step_def py_defs)
  have line: "startswith (py_strip ''#:else\<newline>'') ELSE"
    by (simp add: py_defs)
  have "read_text ?fs (resolve ?fs ''main.obun'') = Some ?text \<and>
      splitlines True (strip_manifest ?text) = [''x\<newline>''] @ ''#:else\<newline>'' # [] \<and>
      lines_loop (build 0 ?fs)
        \<lparr>output = [], skip_stack = [],
         self = ?slf\<lparr>visited := insert (resolve ?fs ''main.obun'') (visited ?slf)\<rparr>\<rparr>
        [''x\<newline>''] = Some (Inr ?st) \<and>
      startswith (py_strip ''#:else\<newline>'') ELSE \<and> skip_stack ?st = []"
    using lines pre line by simp
  then have "\<exists>text pre line post st.
      read_text ?fs (resolve ?fs ''main.obun'') = Some text \<and>
      splitlines True (strip_manifest text) = pre @ line # post \<and>
      lines_loop (build 0 ?fs)
        \<lparr>output = [], skip_stack = [],
         self = ?slf\<lparr>visited := insert (resolve ?fs ''main.obun'') (visited ?slf)\<rparr>\<rparr>
        pre = Some (Inr st) \<and>
      (startswith (py_strip line) ELSE \<and> skip_stack st = [] \<or>
       startswith (py_strip line) INCLUDE \<and> \<not> py_any (skip_stack st) \<and>
       (\<exists>tok path rest. py_split1 (py_strip line) = tok # path # rest \<and>
          build 0 ?fs (self st) path = Some (Inl UnmatchedElse)))"
    by blast
  moreover have "resolve ?fs ''main.obun'' \<notin> visited ?slf"
    by simp
  ultimately show ?thesis
    using unmatched_else_endif [of 0 ?fs ?slf "''main.obun''"] by blast
qed

subsection \<open>Conditional regions\<close>

lemma py_any_append: "py_any (xs @ ys) \<longleftrightarrow> py_any xs \<or> py_any ys"
  by (induction xs) auto

lemma nest_Cons:
  "nest d (l # ls) = (case nest d [l] of None \<Rightarrow> None | Some d1 \<Rightarrow> nest d1 ls)"
  by (simp add: Let_def)

lemma nest_append:
  "nest d (xs @ ys) = (case nest d xs of None \<Rightarrow> None | Some d1 \<Rightarrow> nest d1 ys)"
proof (induction xs arbitrary: d)
  case Nil
  show ?case by simp
next
  case (Cons x xs)
  show ?case
  proof (cases "nest d [x]")
    case None
    then show ?thesis
      using nest_Cons [of d x "xs @ ys"] nest_Cons [of d x xs] by simp
  next
    case (Some d1)
    then show ?thesis
      using nest_Cons [of d x "xs @ ys"] nest_Cons [of d x xs] Cons.IH [of d1] by simp
  qed
qed

text \<open>The five kinds of line.\<close>

lemma line_kinds:
  obtains (inc) "startswith (py_strip l) INCLUDE"
  | (ifl) "startswith (py_strip l) IF" "\<not> startswith (py_strip l) INCLUDE"
  | (elsl) "startswith (py_strip l) ELSE" "\<not> startswith (py_strip l) INCLUDE"
      "\<not> startswith (py_strip l) IF"
  | (endl) "startswith (py_strip l) ENDIF" "\<not> startswith (py_strip l) INCLUDE"
      "\<not> startswith (py_strip l) IF" "\<not> startswith (py_strip l) ELSE"
  | (pln) "plain l"
  unfolding plain_def Let_def by blast

lemma split_two: "\<not> length xs < 2 \<Longrightarrow> \<exists>a b r. xs = a # b # r"
  by (cases xs; cases "tl xs") auto

text \<open>A line under a skipping frame: frames are pushed and popped, nothing else changes.\<close>

lemma step_skipping:
  assumes "py_any b" and "nest (length s) [l] = Some d"
  shows "\<exists>s'. length s' = d \<and>
     step rec (st\<lparr>skip_stack := b @ s\<rparr>) l = Some (Inr (st\<lparr>skip_stack := b @ s'\<rparr>))"
proof (cases l rule: line_kinds)
  case inc
  with assms have "d = length s"
    by (simp add: Let_def)
  with inc assms(1) show ?thesis
    by (intro exI [of _ s]) (simp add: step_include py_any_append)
next
  case ifl
  with assms(2) have two: "\<not> length (py_split1 (py_strip l)) < 2" and d: "d = Suc (length s)"
    by (simp_all add: Let_def split: if_splits)
  from split_two [OF two] obtain a c r where "py_split1 (py_strip l) = a # c # r"
    by blast
  with ifl have "step rec (st\<lparr>skip_stack := b @ s\<rparr>) l =
      Some (Inr (st\<lparr>skip_stack := b @ (s @ [c \<notin> defines (self st)])\<rparr>))"
    by (simp add: step_if)
  with d show ?thesis
    by (intro exI [of _ "s @ [c \<notin> defines (self st)]"]) simp
next
  case elsl
  with assms(2) have ne: "s \<noteq> []" and d: "d = length s"
    by (simp_all add: Let_def split: if_splits)
  then have "butlast (b @ s) = b @ butlast s"
    by (simp add: butlast_append)
  with elsl assms(1) ne have "step rec (st\<lparr>skip_stack := b @ s\<rparr>) l =
      Some (Inr (st\<lparr>skip_stack := b @ s\<rparr>))"
    by (simp add: step_else py_any_append)
  with d show ?thesis
    by blast
next
  case endl
  with assms(2) have ne: "s \<noteq> []" and d: "d = length s - 1"
    by (simp_all add: Let_def split: if_splits)
  then have "butlast (b @ s) = b @ butlast s"
    by (simp add: butlast_append)
  with endl ne have "step rec (st\<lparr>skip_stack := b @ s\<rparr>) l =
      Some (Inr (st\<lparr>skip_stack := b @ butlast s\<rparr>))"
    by (simp add: step_endif)
  with d show ?thesis
    by (intro exI [of _ "butlast s"]) simp
next
  case pln
  with assms(2) have "d = length s"
    by (simp add: plain_def Let_def)
  with pln assms(1) show ?thesis
    by (intro exI [of _ s]) (simp add: step_plain py_any_append)
qed

lemma lines_skipping:
  assumes "py_any b"
  shows "nest (length s) ls = Some d \<Longrightarrow>
     \<exists>s'. length s' = d \<and>
       lines_loop rec (st\<lparr>skip_stack := b @ s\<rparr>) ls = Some (Inr (st\<lparr>skip_stack := b @ s'\<rparr>))"
proof (induction ls arbitrary: s)
  case Nil
  then show ?case
    by (intro exI [of _ s]) simp
next
  case (Cons l ls)
  from Cons.prems obtain d1 where d1: "nest (length s) [l] = Some d1" and rest: "nest d1 ls = Some d"
    using nest_Cons [of "length s" l ls] by (auto split: option.splits)
  from step_skipping [OF assms d1] obtain s1 where s1: "length s1 = d1"
    and step: "step rec (st\<lparr>skip_stack := b @ s\<rparr>) l = Some (Inr (st\<lparr>skip_stack := b @ s1\<rparr>))"
    by blast
  from rest s1 have "nest (length s1) ls = Some d"
    by simp
  from Cons.IH [OF this] obtain s' where "length s' = d"
    and "lines_loop rec (st\<lparr>skip_stack := b @ s1\<rparr>) ls = Some (Inr (st\<lparr>skip_stack := b @ s'\<rparr>))"
    by blast
  with step show ?case
    by auto
qed


text \<open>What is run does not depend on the frames below, beyond whether one of them skips.\<close>

lemma step_rebase:
  assumes "py_any b1 = py_any b2" and "nest (length s) [l] = Some d"
  shows "same_upto_base b1 b2 d
     (step rec (st\<lparr>skip_stack := b1 @ s\<rparr>) l) (step rec (st\<lparr>skip_stack := b2 @ s\<rparr>) l)"
proof (cases l rule: line_kinds)
  case inc
  with assms(2) have d: "d = length s"
    by (simp add: Let_def)
  show ?thesis
  proof (cases "py_any (b1 @ s)")
    case True
    then have "py_any (b2 @ s)"
      using assms(1) by (simp add: py_any_append)
    with True inc have "step rec (st\<lparr>skip_stack := b1 @ s\<rparr>) l = Some (Inr (st\<lparr>skip_stack := b1 @ s\<rparr>))"
      and "step rec (st\<lparr>skip_stack := b2 @ s\<rparr>) l = Some (Inr (st\<lparr>skip_stack := b2 @ s\<rparr>))"
      by (simp_all add: step_include)
    with d show ?thesis
      unfolding same_upto_base_def by blast
  next
    case False
    then have F2: "\<not> py_any (b2 @ s)"
      using assms(1) by (simp add: py_any_append)
    show ?thesis
    proof (cases "py_split1 (py_strip l)")
      case Nil
      with inc False F2 show ?thesis
        by (simp add: step_include same_upto_base_def)
    next
      case (Cons a ws)
      show ?thesis
      proof (cases ws)
        case Nil
        with Cons inc False F2 show ?thesis
          by (simp add: step_include same_upto_base_def)
      next
        case (Cons path r)
        note sp = \<open>py_split1 (py_strip l) = a # ws\<close> Cons
        show ?thesis
        proof (cases "rec (self st) path")
          case None
          with sp inc False F2 show ?thesis
            by (simp add: step_include same_upto_base_def)
        next
          case (Some q)
          show ?thesis
          proof (cases q)
            case (Inl e)
            with Some sp inc False F2 show ?thesis
              by (simp add: step_include same_upto_base_def)
          next
            case (Inr ta)
            obtain t a' where ta: "ta = (t, a')"
              by (cases ta)
            let ?st' = "st\<lparr>output := output st @ [t], self := a'\<rparr>"
            from Inr ta Some sp inc False F2
            have "step rec (st\<lparr>skip_stack := b1 @ s\<rparr>) l = Some (Inr (?st'\<lparr>skip_stack := b1 @ s\<rparr>))"
              and "step rec (st\<lparr>skip_stack := b2 @ s\<rparr>) l = Some (Inr (?st'\<lparr>skip_stack := b2 @ s\<rparr>))"
              by (simp_all add: step_include)
            with d show ?thesis
              unfolding same_upto_base_def by blast
          qed
        qed
      qed
    qed
  qed
next
  case ifl
  with assms(2) have two: "\<not> length (py_split1 (py_strip l)) < 2" and d: "d = Suc (length s)"
    by (simp_all add: Let_def split: if_splits)
  from split_two [OF two] obtain a c r where "py_split1 (py_strip l) = a # c # r"
    by blast
  with ifl have "step rec (st\<lparr>skip_stack := b1 @ s\<rparr>) l =
      Some (Inr (st\<lparr>skip_stack := b1 @ (s @ [c \<notin> defines (self st)])\<rparr>))"
    and "step rec (st\<lparr>skip_stack := b2 @ s\<rparr>) l =
      Some (Inr (st\<lparr>skip_stack := b2 @ (s @ [c \<notin> defines (self st)])\<rparr>))"
    by (simp_all add: step_if)
  moreover have "length (s @ [c \<notin> defines (self st)]) = d"
    using d by simp
  ultimately show ?thesis
    unfolding same_upto_base_def by blast
next
  case elsl
  with assms(2) have ne: "s \<noteq> []" and d: "d = length s"
    by (simp_all add: Let_def split: if_splits)
  then have bl: "butlast (b1 @ s) = b1 @ butlast s" "butlast (b2 @ s) = b2 @ butlast s"
    by (simp_all add: butlast_append)
  have upd: "(b @ s)[length (b @ s) - Suc 0 := v] = b @ (butlast s @ [v])" for b v
    using ne update_last [of "b @ s" v] by (simp add: butlast_append)
  let ?s' = "if py_any (b1 @ butlast s) then s else butlast s @ [\<not> last s]"
  have "py_any (b1 @ butlast s) = py_any (b2 @ butlast s)"
    using assms(1) by (simp add: py_any_append)
  with elsl ne bl upd have "step rec (st\<lparr>skip_stack := b1 @ s\<rparr>) l =
      Some (Inr (st\<lparr>skip_stack := b1 @ ?s'\<rparr>))"
    and "step rec (st\<lparr>skip_stack := b2 @ s\<rparr>) l =
      Some (Inr (st\<lparr>skip_stack := b2 @ ?s'\<rparr>))"
    by (simp_all add: step_else)
  moreover have "length ?s' = d"
    using d ne by simp
  ultimately show ?thesis
    unfolding same_upto_base_def by blast
next
  case endl
  with assms(2) have ne: "s \<noteq> []" and d: "d = length s - 1"
    by (simp_all add: Let_def split: if_splits)
  then have "butlast (b1 @ s) = b1 @ butlast s" "butlast (b2 @ s) = b2 @ butlast s"
    by (simp_all add: butlast_append)
  with endl ne have "step rec (st\<lparr>skip_stack := b1 @ s\<rparr>) l =
      Some (Inr (st\<lparr>skip_stack := b1 @ butlast s\<rparr>))"
    and "step rec (st\<lparr>skip_stack := b2 @ s\<rparr>) l =
      Some (Inr (st\<lparr>skip_stack := b2 @ butlast s\<rparr>))"
    by (simp_all add: step_endif)
  moreover have "length (butlast s) = d"
    using d by simp
  ultimately show ?thesis
    unfolding same_upto_base_def by blast
next
  case pln
  with assms(2) have d: "d = length s"
    by (simp add: plain_def Let_def)
  show ?thesis
  proof (cases "py_any (b1 @ s)")
    case True
    then have "py_any (b2 @ s)"
      using assms(1) by (simp add: py_any_append)
    with True pln have "step rec (st\<lparr>skip_stack := b1 @ s\<rparr>) l = Some (Inr (st\<lparr>skip_stack := b1 @ s\<rparr>))"
      and "step rec (st\<lparr>skip_stack := b2 @ s\<rparr>) l = Some (Inr (st\<lparr>skip_stack := b2 @ s\<rparr>))"
      by (simp_all add: step_plain)
    with d show ?thesis
      unfolding same_upto_base_def by blast
  next
    case False
    then have "\<not> py_any (b2 @ s)"
      using assms(1) by (simp add: py_any_append)
    let ?st' = "st\<lparr>output := output st @ [l]\<rparr>"
    from False \<open>\<not> py_any (b2 @ s)\<close> pln
    have "step rec (st\<lparr>skip_stack := b1 @ s\<rparr>) l = Some (Inr (?st'\<lparr>skip_stack := b1 @ s\<rparr>))"
      and "step rec (st\<lparr>skip_stack := b2 @ s\<rparr>) l = Some (Inr (?st'\<lparr>skip_stack := b2 @ s\<rparr>))"
      by (simp_all add: step_plain)
    with d show ?thesis
      unfolding same_upto_base_def by blast
  qed
qed

lemma same_upto_baseE:
  assumes "same_upto_base b1 b2 d r1 r2"
  obtains (none) "r1 = None" "r2 = None"
  | (err) e where "r1 = Some (Inl e)" "r2 = Some (Inl e)"
  | (ok) st' s' where "length s' = d" "r1 = Some (Inr (st'\<lparr>skip_stack := b1 @ s'\<rparr>))"
      "r2 = Some (Inr (st'\<lparr>skip_stack := b2 @ s'\<rparr>))"
proof -
  from assms have "(r1 = None \<and> r2 = None) \<or>
     (\<exists>e. r1 = Some (Inl e) \<and> r2 = Some (Inl e)) \<or>
     (\<exists>st' s'. length s' = d \<and>
        r1 = Some (Inr (st'\<lparr>skip_stack := b1 @ s'\<rparr>)) \<and>
        r2 = Some (Inr (st'\<lparr>skip_stack := b2 @ s'\<rparr>)))"
    by (simp only: same_upto_base_def)
  then show thesis
  proof (elim disjE exE conjE)
    assume "r1 = None" "r2 = None"
    then show thesis by (rule none)
  next
    fix e
    assume "r1 = Some (Inl e)" "r2 = Some (Inl e)"
    then show thesis by (rule err)
  next
    fix st' s'
    assume "length s' = d" "r1 = Some (Inr (st'\<lparr>skip_stack := b1 @ s'\<rparr>))"
      "r2 = Some (Inr (st'\<lparr>skip_stack := b2 @ s'\<rparr>))"
    then show thesis by (rule ok)
  qed
qed

lemma lines_rebase:
  assumes "py_any b1 = py_any b2"
  shows "nest (length s) ls = Some d \<Longrightarrow>
     same_upto_base b1 b2 d
       (lines_loop rec (st\<lparr>skip_stack := b1 @ s\<rparr>) ls)
       (lines_loop rec (st\<lparr>skip_stack := b2 @ s\<rparr>) ls)"
proof (induction ls arbitrary: s st)
  case Nil
  then have "length s = d"
    by simp
  then show ?case
    unfolding same_upto_base_def by auto
next
  case (Cons l ls)
  from Cons.prems obtain d1 where d1: "nest (length s) [l] = Some d1" and rest: "nest d1 ls = Some d"
    using nest_Cons [of "length s" l ls] by (auto split: option.splits)
  from step_rebase [OF assms d1, of rec st]
  show ?case
  proof (cases rule: same_upto_baseE)
    case none
    then show ?thesis
      by (simp add: same_upto_base_def)
  next
    case (err e)
    then show ?thesis
      by (simp add: same_upto_base_def)
  next
    case (ok st1 s1)
    from rest ok(1) have "nest (length s1) ls = Some d"
      by simp
    from Cons.IH [OF this, of st1] ok(2,3) show ?thesis
      by simp
  qed
qed




subsection \<open>An if that is never closed\<close>

text \<open>
  Claim C6. The stack left at the end of the file is not examined: whenever the loop over
  the lines of a file ends without a failure, \<^verbatim>\<open>build\<close> returns the accumulated output,
  whatever frames are still open. In particular, after an if-line that no later line
  closes (the lines after it never go below their own depth), \<^verbatim>\<open>build\<close> returns the output
  reached before the if-line when the frame skips, every later line being dropped through
  the end of the file, and what the later lines build to when it does not.
\<close>

theorem unterminated_if_accepted:
  "(resolve fsys fname \<notin> visited slf \<longrightarrow>
    read_text fsys (resolve fsys fname) = Some src \<longrightarrow>
    lines_loop (build n fsys)
      \<lparr>output = [], skip_stack = [],
       self = slf\<lparr>visited := insert (resolve fsys fname) (visited slf)\<rparr>\<rparr>
      (splitlines True (strip_manifest src)) = Some (Inr st) \<longrightarrow>
    build (Suc n) fsys slf fname = Some (Inr (concat (output st), self st))) \<and>
   (resolve fsys fname \<notin> visited slf \<longrightarrow>
    read_text fsys (resolve fsys fname) = Some src \<longrightarrow>
    splitlines True (strip_manifest src) = pre @ [if_line] @ post \<longrightarrow>
    lines_loop (build n fsys)
      \<lparr>output = [], skip_stack = [],
       self = slf\<lparr>visited := insert (resolve fsys fname) (visited slf)\<rparr>\<rparr> pre = Some (Inr st1) \<longrightarrow>
    startswith (py_strip if_line) IF \<longrightarrow>
    py_split1 (py_strip if_line) = [tok, name] \<longrightarrow>
    nest 0 post = Some d \<longrightarrow>
    build (Suc n) fsys slf fname =
      (if py_any (skip_stack st1) \<or> name \<notin> defines (self st1)
       then Some (Inr (concat (output st1), self st1))
       else (case lines_loop (build n fsys) st1 post of
               None \<Rightarrow> None
             | Some (Inl e) \<Rightarrow> Some (Inl e)
             | Some (Inr st') \<Rightarrow> Some (Inr (concat (output st'), self st')))))"
proof (intro conjI impI)
  assume "resolve fsys fname \<notin> visited slf"
    and "read_text fsys (resolve fsys fname) = Some src"
    and "lines_loop (build n fsys)
      \<lparr>output = [], skip_stack = [],
       self = slf\<lparr>visited := insert (resolve fsys fname) (visited slf)\<rparr>\<rparr>
      (splitlines True (strip_manifest src)) = Some (Inr st)"
  then show "build (Suc n) fsys slf fname = Some (Inr (concat (output st), self st))"
    by (simp add: build_Suc)
next
  let ?rec = "build n fsys"
  let ?init = "\<lparr>output = [], skip_stack = [],
       self = slf\<lparr>visited := insert (resolve fsys fname) (visited slf)\<rparr>\<rparr>"
  let ?k = "skip_stack st1"
  let ?f = "name \<notin> defines (self st1)"
  assume nv: "resolve fsys fname \<notin> visited slf"
    and rd: "read_text fsys (resolve fsys fname) = Some src"
    and lines: "splitlines True (strip_manifest src) = pre @ [if_line] @ post"
    and pre: "lines_loop ?rec ?init pre = Some (Inr st1)"
    and if_line: "startswith (py_strip if_line) IF"
    and name: "py_split1 (py_strip if_line) = [tok, name]"
    and post: "nest 0 post = Some d"
  have push: "step ?rec st1 if_line = Some (Inr (st1\<lparr>skip_stack := ?k @ [?f]\<rparr>))"
    using if_line name by (simp add: step_if)
  have whole: "lines_loop ?rec ?init (splitlines True (strip_manifest src)) =
      lines_loop ?rec (st1\<lparr>skip_stack := ?k @ [?f]\<rparr>) post"
    unfolding lines by (simp add: lines_loop_append pre push)
  have build: "build (Suc n) fsys slf fname =
      (case lines_loop ?rec (st1\<lparr>skip_stack := ?k @ [?f]\<rparr>) post of
         None \<Rightarrow> None
       | Some (Inl e) \<Rightarrow> Some (Inl e)
       | Some (Inr st') \<Rightarrow> Some (Inr (concat (output st'), self st')))"
    by (simp only: build_Suc [OF nv rd] whole)
  show "build (Suc n) fsys slf fname =
      (if py_any ?k \<or> ?f then Some (Inr (concat (output st1), self st1))
       else (case lines_loop ?rec st1 post of
               None \<Rightarrow> None
             | Some (Inl e) \<Rightarrow> Some (Inl e)
             | Some (Inr st') \<Rightarrow> Some (Inr (concat (output st'), self st'))))"
  proof (cases "py_any ?k \<or> ?f")
    case True
    then have "py_any (?k @ [?f])"
      by (auto simp: py_any_append)
    from lines_skipping [OF this, of "[]" post d ?rec st1] post
    obtain s' where "lines_loop ?rec (st1\<lparr>skip_stack := ?k @ [?f]\<rparr>) post =
        Some (Inr (st1\<lparr>skip_stack := (?k @ [?f]) @ s'\<rparr>))"
      by auto
    with True show ?thesis
      unfolding build by simp
  next
    case False
    then have f: "?f = False" and "py_any ?k = py_any (?k @ [False])"
      by (simp_all add: py_any_append)
    from lines_rebase [OF this(2), of "[]" post d ?rec st1] post
    have "same_upto_base ?k (?k @ [False]) d
        (lines_loop ?rec st1 post) (lines_loop ?rec (st1\<lparr>skip_stack := ?k @ [False]\<rparr>) post)"
      by simp
    then have "(case lines_loop ?rec (st1\<lparr>skip_stack := ?k @ [False]\<rparr>) post of
         None \<Rightarrow> None
       | Some (Inl e) \<Rightarrow> Some (Inl e)
       | Some (Inr st') \<Rightarrow> Some (Inr (concat (output st'), self st'))) =
       (case lines_loop ?rec st1 post of
         None \<Rightarrow> None
       | Some (Inl e) \<Rightarrow> Some (Inl e)
       | Some (Inr st') \<Rightarrow> Some (Inr (concat (output st'), self st')))"
    proof (cases rule: same_upto_baseE)
      case none
      then show ?thesis by simp
    next
      case (err e)
      then show ?thesis by simp
    next
      case (ok st2 s2)
      then show ?thesis by simp
    qed
    with False f show ?thesis
      unfolding build by simp
  qed
qed

theorem unterminated_if_accepted_witness:
  "build (Suc 0)
     \<lparr>resolve = (\<lambda>f. f),
      read_text = [''main.obun'' \<mapsto> ''keep\<newline>#:if RELEASE\<newline>dropped\<newline>'']\<rparr>
     \<lparr>visited = {}, defines = {}, manifest = Map.empty\<rparr> ''main.obun'' =
   Some (Inr (''keep\<newline>'',
              \<lparr>visited = {''main.obun''}, defines = {}, manifest = Map.empty\<rparr>)) \<and>
   build (Suc 0)
     \<lparr>resolve = (\<lambda>f. f),
      read_text = [''main.obun'' \<mapsto> ''#:if A\<newline>#:if B\<newline>x\<newline>'']\<rparr>
     \<lparr>visited = {}, defines = {''A''}, manifest = Map.empty\<rparr> ''main.obun'' =
   Some (Inr ([],
              \<lparr>visited = {''main.obun''}, defines = {''A''}, manifest = Map.empty\<rparr>))"
proof
  let ?text = "''keep\<newline>#:if RELEASE\<newline>dropped\<newline>''"
  let ?fs = "\<lparr>resolve = (\<lambda>f. f), read_text = [''main.obun'' \<mapsto> ?text]\<rparr>"
  let ?slf = "\<lparr>visited = {}, defines = {}, manifest = Map.empty\<rparr>"
  let ?init = "\<lparr>output = [], skip_stack = [],
      self = ?slf\<lparr>visited := insert (resolve ?fs ''main.obun'') (visited ?slf)\<rparr>\<rparr>"
  let ?st1 = "\<lparr>output = [''keep\<newline>''], skip_stack = [],
      self = \<lparr>visited = {''main.obun''}, defines = {}, manifest = Map.empty\<rparr>\<rparr>"
  have p1: "resolve ?fs ''main.obun'' \<notin> visited ?slf"
    by simp
  have p2: "read_text ?fs (resolve ?fs ''main.obun'') = Some ?text"
    by simp
  have p3: "splitlines True (strip_manifest ?text) =
      [''keep\<newline>''] @ [''#:if RELEASE\<newline>''] @ [''dropped\<newline>'']"
    by code_simp
  have p4: "lines_loop (build 0 ?fs) ?init [''keep\<newline>''] = Some (Inr ?st1)"
    by (simp add: step_def py_defs)
  have p5: "startswith (py_strip ''#:if RELEASE\<newline>'') IF"
    and p6: "py_split1 (py_strip ''#:if RELEASE\<newline>'') = [''#:if'', ''RELEASE'']"
    by (simp_all add: py_defs)
  have p7: "nest 0 [''dropped\<newline>''] = Some 0"
    by (simp add: py_defs)
  from unterminated_if_accepted [THEN conjunct2, rule_format, OF p1 p2 p3 p4 p5 p6 p7]
  show "build (Suc 0) ?fs ?slf ''main.obun'' =
      Some (Inr (''keep\<newline>'', \<lparr>visited = {''main.obun''}, defines = {}, manifest = Map.empty\<rparr>))"
    by simp
next
  let ?text = "''#:if A\<newline>#:if B\<newline>x\<newline>''"
  let ?fs = "\<lparr>resolve = (\<lambda>f. f), read_text = [''main.obun'' \<mapsto> ?text]\<rparr>"
  let ?slf = "\<lparr>visited = {}, defines = {''A''}, manifest = Map.empty\<rparr>"
  let ?init = "\<lparr>output = [], skip_stack = [],
      self = ?slf\<lparr>visited := insert (resolve ?fs ''main.obun'') (visited ?slf)\<rparr>\<rparr>"
  let ?st = "\<lparr>output = [], skip_stack = [False, True],
      self = \<lparr>visited = {''main.obun''}, defines = {''A''}, manifest = Map.empty\<rparr>\<rparr>"
  have p1: "resolve ?fs ''main.obun'' \<notin> visited ?slf"
    by simp
  have p2: "read_text ?fs (resolve ?fs ''main.obun'') = Some ?text"
    by simp
  have lines: "splitlines True (strip_manifest ?text) = [''#:if A\<newline>'', ''#:if B\<newline>'', ''x\<newline>'']"
    by code_simp
  have p3: "lines_loop (build 0 ?fs) ?init (splitlines True (strip_manifest ?text)) = Some (Inr ?st)"
    unfolding lines by (simp add: step_def py_defs)
  from unterminated_if_accepted [THEN conjunct1, rule_format, OF p1 p2 p3]
  show "build (Suc 0) ?fs ?slf ''main.obun'' =
      Some (Inr ([], \<lparr>visited = {''main.obun''}, defines = {''A''}, manifest = Map.empty\<rparr>))"
    by simp
qed

subsection \<open>Parsing the manifest\<close>






subsection \<open>Determinism of a build\<close>

text \<open>A call that has returned within a bound returns the same within every larger one.\<close>

lemma step_mono:
  assumes "\<And>a f r. rec a f = Some r \<Longrightarrow> rec' a f = Some r"
    and "step rec st line = Some r"
  shows "step rec' st line = Some r"
proof (cases "startswith (py_strip line) INCLUDE \<and> \<not> py_any (skip_stack st)")
  case True
  show ?thesis
  proof (cases "py_split1 (py_strip line)")
    case Nil
    with True assms(2) show ?thesis by (simp add: step_include)
  next
    case (Cons tok ws)
    show ?thesis
    proof (cases ws)
      case Nil
      with Cons True assms(2) show ?thesis by (simp add: step_include)
    next
      case (Cons path rest)
      with \<open>py_split1 (py_strip line) = tok # ws\<close> True assms(2)
      obtain q where q: "rec (self st) path = Some q"
        by (auto simp: step_include split: option.splits)
      then have "rec' (self st) path = Some q"
        by (rule assms(1))
      with q Cons \<open>py_split1 (py_strip line) = tok # ws\<close> True assms(2) show ?thesis
        by (simp add: step_include)
    qed
  qed
next
  case False
  then have "step rec' st line = step rec st line"
    by (auto simp: step_def Let_def)
  with assms(2) show ?thesis by simp
qed

lemma lines_loop_mono:
  assumes "\<And>a f r. rec a f = Some r \<Longrightarrow> rec' a f = Some r"
  shows "lines_loop rec st ls = Some r \<Longrightarrow> lines_loop rec' st ls = Some r"
proof (induction ls arbitrary: st)
  case Nil
  then show ?case by simp
next
  case (Cons l ls)
  from Cons.prems obtain q where q: "step rec st l = Some q"
    by (auto split: option.splits)
  then have q': "step rec' st l = Some q"
    using assms step_mono by blast
  show ?case
  proof (cases q)
    case (Inl e)
    with q q' Cons.prems show ?thesis by auto
  next
    case (Inr st')
    with q Cons.prems have "lines_loop rec st' ls = Some r" by simp
    then have "lines_loop rec' st' ls = Some r" by (rule Cons.IH)
    with q' Inr show ?thesis by simp
  qed
qed

lemma build_Suc_mono:
  "build n fsys slf fname = Some r \<Longrightarrow> build (Suc n) fsys slf fname = Some r"
proof (induction n arbitrary: slf fname r)
  case 0
  then show ?case by simp
next
  case (Suc n)
  have rec: "\<And>a f q. build n fsys a f = Some q \<Longrightarrow> build (Suc n) fsys a f = Some q"
    by (rule Suc.IH)
  show ?case
  proof (cases "resolve fsys fname \<in> visited slf")
    case True
    with Suc.prems show ?thesis by (simp add: Let_def)
  next
    case nv: False
    show ?thesis
    proof (cases "read_text fsys (resolve fsys fname)")
      case None
      with nv Suc.prems show ?thesis by (simp add: Let_def)
    next
      case (Some src)
      let ?init = "\<lparr>output = [], skip_stack = [],
            self = slf\<lparr>visited := insert (resolve fsys fname) (visited slf)\<rparr>\<rparr>"
      from Suc.prems nv Some obtain q where
        q: "lines_loop (build n fsys) ?init (splitlines True (strip_manifest src)) = Some q"
        by (auto simp: build_Suc split: option.splits)
      then have "lines_loop (build (Suc n) fsys) ?init (splitlines True (strip_manifest src)) = Some q"
        using rec lines_loop_mono by blast
      with q Suc.prems nv Some show ?thesis
        by (simp add: build_Suc)
    qed
  qed
qed

lemma build_mono:
  "build n fsys slf file = Some r \<Longrightarrow> n \<le> k \<Longrightarrow> build k fsys slf file = Some r"
proof -
  assume b: "build n fsys slf file = Some r" and "n \<le> k"
  then obtain d where k: "k = n + d"
    using le_Suc_ex by blast
  have "build (n + d) fsys slf file = Some r"
  proof (induction d)
    case 0
    with b show ?case by simp
  next
    case (Suc d)
    then have "build (Suc (n + d)) fsys slf file = Some r"
      by (rule build_Suc_mono)
    then show ?case by simp
  qed
  with k show ?thesis by simp
qed

text \<open>Every call returns once the bound exceeds the number of readable files not yet visited.\<close>

lemma step_returns:
  assumes "\<forall>a f. V \<subseteq> visited a \<longrightarrow>
      (\<exists>r. rec a f = Some r \<and> (\<forall>t a'. r = Inr (t, a') \<longrightarrow> visited a \<subseteq> visited a'))"
    and "V \<subseteq> visited (self st)"
  shows "\<exists>r. step rec st line = Some r \<and>
      (\<forall>st'. r = Inr st' \<longrightarrow> visited (self st) \<subseteq> visited (self st'))"
proof (cases "startswith (py_strip line) INCLUDE \<and> \<not> py_any (skip_stack st)")
  case True
  show ?thesis
  proof (cases "py_split1 (py_strip line)")
    case Nil
    with True show ?thesis by (simp add: step_include)
  next
    case (Cons tok ws)
    show ?thesis
    proof (cases ws)
      case Nil
      with Cons True show ?thesis by (simp add: step_include)
    next
      case (Cons path rest)
      from assms obtain q where q: "rec (self st) path = Some q"
        and mono: "\<forall>t a'. q = Inr (t, a') \<longrightarrow> visited (self st) \<subseteq> visited a'"
        by blast
      show ?thesis
      proof (cases q)
        case (Inl e)
        with q Cons \<open>py_split1 (py_strip line) = tok # ws\<close> True show ?thesis
          by (simp add: step_include)
      next
        case (Inr ta)
        obtain t a' where "ta = (t, a')" by (cases ta)
        with Inr mono q Cons \<open>py_split1 (py_strip line) = tok # ws\<close> True show ?thesis
          by (simp add: step_include)
      qed
    qed
  qed
next
  case False
  then show ?thesis
    by (auto simp: step_def Let_def split: list.splits)
qed

lemma lines_loop_returns:
  assumes "\<forall>a f. V \<subseteq> visited a \<longrightarrow>
      (\<exists>r. rec a f = Some r \<and> (\<forall>t a'. r = Inr (t, a') \<longrightarrow> visited a \<subseteq> visited a'))"
  shows "V \<subseteq> visited (self st) \<Longrightarrow>
      \<exists>r. lines_loop rec st ls = Some r \<and>
        (\<forall>st'. r = Inr st' \<longrightarrow> visited (self st) \<subseteq> visited (self st'))"
proof (induction ls arbitrary: st)
  case Nil
  then show ?case by simp
next
  case (Cons l ls)
  from step_returns [OF assms Cons.prems] obtain q where q: "step rec st l = Some q"
    and mono: "\<forall>st'. q = Inr st' \<longrightarrow> visited (self st) \<subseteq> visited (self st')"
    by blast
  show ?case
  proof (cases q)
    case (Inl e)
    with q show ?thesis by simp
  next
    case (Inr st1)
    with mono have sub: "visited (self st) \<subseteq> visited (self st1)" by simp
    with Cons.prems have "V \<subseteq> visited (self st1)" by blast
    from Cons.IH [OF this] obtain r where "lines_loop rec st1 ls = Some r"
      and "\<forall>st'. r = Inr st' \<longrightarrow> visited (self st1) \<subseteq> visited (self st')"
      by blast
    with q Inr sub show ?thesis by auto
  qed
qed

lemma build_returns:
  assumes "finite (dom (read_text fsys))"
  shows "card (dom (read_text fsys) - visited slf) < n \<Longrightarrow>
      \<exists>r. build n fsys slf fname = Some r \<and>
        (\<forall>t a'. r = Inr (t, a') \<longrightarrow> visited slf \<subseteq> visited a')"
proof (induction n arbitrary: slf fname)
  case 0
  then show ?case by simp
next
  case (Suc n)
  let ?p = "resolve fsys fname"
  show ?case
  proof (cases "?p \<in> visited slf")
    case True
    then show ?thesis by (simp add: Let_def)
  next
    case nv: False
    show ?thesis
    proof (cases "read_text fsys ?p")
      case None
      with nv show ?thesis by (simp add: Let_def)
    next
      case (Some src)
      let ?V = "insert ?p (visited slf)"
      let ?init = "\<lparr>output = [], skip_stack = [], self = slf\<lparr>visited := ?V\<rparr>\<rparr>"
      have "?p \<in> dom (read_text fsys) - visited slf"
        using nv Some by auto
      then have "card (dom (read_text fsys) - ?V) < card (dom (read_text fsys) - visited slf)"
        using assms by (intro psubset_card_mono) auto
      with Suc.prems have small: "card (dom (read_text fsys) - ?V) < n"
        by simp
      have "\<exists>r. build n fsys a f = Some r \<and>
          (\<forall>t a'. r = Inr (t, a') \<longrightarrow> visited a \<subseteq> visited a')"
        if "?V \<subseteq> visited a" for a f
      proof -
        have "dom (read_text fsys) - visited a \<subseteq> dom (read_text fsys) - ?V"
          using that by blast
        then have "card (dom (read_text fsys) - visited a) \<le> card (dom (read_text fsys) - ?V)"
          using assms by (intro card_mono) auto
        with small have "card (dom (read_text fsys) - visited a) < n"
          by simp
        then show ?thesis by (rule Suc.IH)
      qed
      then have rec: "\<forall>a f. ?V \<subseteq> visited a \<longrightarrow>
          (\<exists>r. build n fsys a f = Some r \<and>
            (\<forall>t a'. r = Inr (t, a') \<longrightarrow> visited a \<subseteq> visited a'))"
        by blast
      have "?V \<subseteq> visited (self ?init)"
        by simp
      from lines_loop_returns [of ?V "build n fsys", OF rec this]
      obtain r where r: "lines_loop (build n fsys) ?init (splitlines True (strip_manifest src)) = Some r"
        and mono: "\<forall>st'. r = Inr st' \<longrightarrow> visited (self ?init) \<subseteq> visited (self st')"
        by blast
      show ?thesis
      proof (cases r)
        case (Inl e)
        with r nv Some show ?thesis by (simp add: build_Suc)
      next
        case (Inr st')
        with mono have "visited slf \<subseteq> visited (self st')" by auto
        with Inr r nv Some show ?thesis by (simp add: build_Suc)
      qed
    qed
  qed
qed

text \<open>
  Claim C8. The text \<^verbatim>\<open>run_build\<close> produces depends on the file tree, the defined symbols and
  the input file only: whatever visited set and manifest earlier builds left in the
  assembler, the result is the same, since \<^verbatim>\<open>run_build\<close> clears the one and reloads the
  other. The result does not depend on the recursion bound once the build has returned,
  and on a finite file tree every build returns.
\<close>

theorem build_deterministic:
  "run_build n fsys (a\<lparr>visited := v, manifest := m\<rparr>) input_file = run_build n fsys a input_file \<and>
   (run_build n fsys a input_file = Some r \<longrightarrow> n \<le> k \<longrightarrow> run_build k fsys a input_file = Some r) \<and>
   (finite (dom (read_text fsys)) \<longrightarrow>
      (\<exists>r. run_build (Suc (card (dom (read_text fsys)))) fsys a input_file = Some r))"
proof (intro conjI impI)
  show "run_build n fsys (a\<lparr>visited := v, manifest := m\<rparr>) input_file = run_build n fsys a input_file"
    by (simp add: run_build_def load_manifest_def Let_def split: option.splits)
next
  assume run: "run_build n fsys a input_file = Some r" and le: "n \<le> k"
  show "run_build k fsys a input_file = Some r"
  proof (cases "load_manifest fsys (a\<lparr>visited := {}\<rparr>) input_file")
    case (Inl e)
    with run show ?thesis by (simp add: run_build_def)
  next
    case (Inr a1)
    with run obtain q where q: "build n fsys a1 input_file = Some q"
      by (auto simp: run_build_def split: option.splits)
    then have "build k fsys a1 input_file = Some q"
      using le by (rule build_mono)
    with q run Inr show ?thesis
      by (simp add: run_build_def)
  qed
next
  assume fin: "finite (dom (read_text fsys))"
  show "\<exists>r. run_build (Suc (card (dom (read_text fsys)))) fsys a input_file = Some r"
  proof (cases "load_manifest fsys (a\<lparr>visited := {}\<rparr>) input_file")
    case (Inl e)
    then show ?thesis by (simp add: run_build_def)
  next
    case (Inr a1)
    then have "visited a1 = {}"
      by (auto simp: load_manifest_def Let_def split: option.splits)
    then have "card (dom (read_text fsys) - visited a1) < Suc (card (dom (read_text fsys)))"
      by simp
    from build_returns [OF fin this] obtain q where
      "build (Suc (card (dom (read_text fsys)))) fsys a1 input_file = Some q"
      by blast
    with Inr show ?thesis
      by (auto simp: run_build_def split: sum.splits option.splits)
  qed
qed

lemmas eval_defs = py_defs step_def Let_def strip_manifest_def eol_def not_linebreak_def
  is_linebreak_def CR_def LF_def MANIFEST_START_def MANIFEST_END_def

theorem build_deterministic_witness:
  "run_build (Suc 0)
     \<lparr>resolve = (\<lambda>f. f),
      read_text = [''index.obun'' \<mapsto> ''0o ---\<newline>shebang: /bin/sh\<newline>--- o0\<newline>code\<newline>'']\<rparr>
     \<lparr>visited = {''index.obun''}, defines = {}, manifest = [''stale'' \<mapsto> ''x'']\<rparr> ''index.obun'' =
     Some (Inr ''#!/bin/sh\<newline>code\<newline>'') \<and>
   run_build 2
     \<lparr>resolve = (\<lambda>f. f),
      read_text = [''index.obun'' \<mapsto> ''0o ---\<newline>shebang: /bin/sh\<newline>--- o0\<newline>code\<newline>'']\<rparr>
     \<lparr>visited = {}, defines = {}, manifest = Map.empty\<rparr> ''index.obun'' =
     Some (Inr ''#!/bin/sh\<newline>code\<newline>'')"
proof -
  let ?text = "''0o ---\<newline>shebang: /bin/sh\<newline>--- o0\<newline>code\<newline>''"
  let ?fs = "\<lparr>resolve = (\<lambda>f. f), read_text = [''index.obun'' \<mapsto> ?text]\<rparr>"
  let ?a = "\<lparr>visited = {}, defines = {}, manifest = Map.empty\<rparr>"
  have m: "parse ?text ''shebang'' = Some ''/bin/sh''"
    by (simp add: parse_def add_line_def split_colon_def eval_defs)
  have b: "splitlines True (strip_manifest ?text) = [''code\<newline>'']"
    by code_simp
  have run: "run_build (Suc 0) ?fs ?a ''index.obun'' = Some (Inr ''#!/bin/sh\<newline>code\<newline>'')"
    by (simp add: run_build_def load_manifest_def m b step_def py_defs LF_def)
  have le: "Suc 0 \<le> 2"
    by simp
  have fin: "finite (dom (read_text ?fs))"
    by simp
  show ?thesis
    using build_deterministic [where n = "Suc 0" and fsys = ?fs and a = ?a
        and v = "{''index.obun''}" and m = "[''stale'' \<mapsto> ''x'']"
        and input_file = "''index.obun''" and r = "Inr ''#!/bin/sh\<newline>code\<newline>''" and k = 2]
      run le fin
    by simp
qed

subsection \<open>Circular includes\<close>

text \<open>
  Claim C1 says that \<^verbatim>\<open>build\<close> fails with the circular-include error exactly when a path is
  entered again while it is still open. The code never removes a path from the visited
  set, so it also fails when a file that has been built completely is included a second
  time: below, \<^verbatim>\<open>a.obun\<close> includes \<^verbatim>\<open>b.obun\<close> twice in a row, the first include returns
  the text of \<^verbatim>\<open>b.obun\<close>, and the build of \<^verbatim>\<open>a.obun\<close> fails with the circular-include
  error for \<^verbatim>\<open>b.obun\<close>, although no file includes itself.
\<close>

theorem repeated_include_reported_circular:
  "build 2
     \<lparr>resolve = (\<lambda>f. f),
      read_text = [''a.obun'' \<mapsto> ''#:section b.obun\<newline>#:section b.obun\<newline>'',
                   ''b.obun'' \<mapsto> ''x\<newline>'']\<rparr>
     \<lparr>visited = {}, defines = {}, manifest = Map.empty\<rparr> ''a.obun'' =
     Some (Inl (CircularInclude ''b.obun'')) \<and>
   build 1
     \<lparr>resolve = (\<lambda>f. f),
      read_text = [''a.obun'' \<mapsto> ''#:section b.obun\<newline>#:section b.obun\<newline>'',
                   ''b.obun'' \<mapsto> ''x\<newline>'']\<rparr>
     \<lparr>visited = {''a.obun''}, defines = {}, manifest = Map.empty\<rparr> ''b.obun'' =
     Some (Inr (''x\<newline>'',
       \<lparr>visited = {''b.obun'', ''a.obun''}, defines = {}, manifest = Map.empty\<rparr>))"
proof -
  have a: "splitlines True (strip_manifest ''#:section b.obun\<newline>#:section b.obun\<newline>'') =
      [''#:section b.obun\<newline>'', ''#:section b.obun\<newline>'']"
    by code_simp
  have b: "splitlines True (strip_manifest ''x\<newline>'') = [''x\<newline>'']"
    by code_simp
  show ?thesis
    by (simp add: numeral_2_eq_2 a b step_def py_defs)
qed

text \<open>A real cycle is reported: \<^verbatim>\<open>a.obun\<close> includes \<^verbatim>\<open>b.obun\<close>, which includes \<^verbatim>\<open>a.obun\<close>.\<close>

lemma cycle_detected:
  "build 3
     \<lparr>resolve = (\<lambda>f. f),
      read_text = [''a.obun'' \<mapsto> ''head\<newline>#:section b.obun\<newline>'',
                   ''b.obun'' \<mapsto> ''#:section a.obun\<newline>'']\<rparr>
     \<lparr>visited = {}, defines = {}, manifest = Map.empty\<rparr> ''a.obun'' =
     Some (Inl (CircularInclude ''a.obun''))"
proof -
  have a: "splitlines True (strip_manifest ''head\<newline>#:section b.obun\<newline>'') =
      [''head\<newline>'', ''#:section b.obun\<newline>'']"
    by code_simp
  have b: "splitlines True (strip_manifest ''#:section a.obun\<newline>'') = [''#:section a.obun\<newline>'']"
    by code_simp
  show ?thesis
    by (simp add: numeral_3_eq_3 a b step_def py_defs)
qed

subsection \<open>Stripping the manifest\<close>






























end
